theory Spec2Isabelle
  imports Main
begin

section \<open>Data exchanged between the main thread and a worker\<close>

text \<open>
  \<^verbatim>\<open>class Message { workerNumber; offset; max }\<close> of \<^verbatim>\<open>app.service.ts\<close>. The fields
  are JavaScript numbers holding small non-negative integers (loop counters and the literal
  \<^verbatim>\<open>500_000\<close>), far below 2 to the power 53, so they are natural numbers here. The field
  \<^verbatim>\<open>max\<close> is written \<open>max'\<close>.
\<close>

record Message =
  workerNumber :: nat
  offset :: nat
  max' :: nat

text \<open>The response classes of \<^verbatim>\<open>class/worker-message.ts\<close>.\<close>

record WorkerSuccessResp =
  salt :: nat
  address :: string

record WorkerErrorResp =
  message :: string

record WorkerResp =
  isSuccess :: bool
  data :: "WorkerSuccessResp option"
  error :: "WorkerErrorResp option"

text \<open>
  What can travel over the message port. The handler of \<^verbatim>\<open>spawn\<close> declares its
  argument as a \<^verbatim>\<open>WorkerResp\<close>; the worker script posts the object literal
  \<^verbatim>\<open>{ salt: i }\<close> and the object \<^verbatim>\<open>new Error('Not Found')\<close>.
\<close>

datatype payload =
    Resp WorkerResp
  | SaltObj nat
  | ErrorObj string

text \<open>
  Reading the property \<^verbatim>\<open>msg.isSuccess\<close>: an object without the property gives
  \<^verbatim>\<open>undefined\<close> (\<open>None\<close>), which the test \<^verbatim>\<open>if (msg.isSuccess)\<close> takes as false.
\<close>

fun isSuccess_of :: "payload \<Rightarrow> bool option" where
  "isSuccess_of (Resp r) = Some (isSuccess r)"
| "isSuccess_of (SaltObj i) = None"
| "isSuccess_of (ErrorObj m) = None"

fun truthy :: "bool option \<Rightarrow> bool" where
  "truthy None = False"
| "truthy (Some b) = b"

section \<open>The worker script (salt.worker)\<close>

text \<open>
  The handler of \<^verbatim>\<open>parentPort.on('message', ...)\<close>. The hash of the candidate and the
  test \<^verbatim>\<open>address.toLowerCase().endsWith('d3ad')\<close> are computed by the ethers library;
  they are the parameter \<open>probe\<close>. The state of the loop is the list of messages given to
  \<^verbatim>\<open>postMessage\<close> so far, together with the candidates whose hash has been computed
  (\<open>examined\<close>, kept only to speak about the scan). The diagnostic \<^verbatim>\<open>console.log\<close>
  calls of the worker are left out.

  The loop \<^verbatim>\<open>for (let i = data.offset; i < data.max; i += data.workerNumber)\<close> does not
  end when \<^verbatim>\<open>workerNumber\<close> is 0 and \<^verbatim>\<open>offset < max\<close>: the result \<open>None\<close> is a
  handler that never returns.
\<close>

record scan_state =
  examined :: "nat list"
  posted :: "payload list"

partial_function (option) scan_loop ::
    "(nat \<Rightarrow> bool) \<Rightarrow> Message \<Rightarrow> nat \<Rightarrow> scan_state \<Rightarrow> scan_state option" where
  "scan_loop probe d i s =
     (if i < max' d
      then scan_loop probe d (i + workerNumber d)
             (s\<lparr>examined := examined s @ [i],
                posted := (if probe i then posted s @ [SaltObj i] else posted s)\<rparr>)
      else Some s)"

declare scan_loop.simps [code]

definition salt_worker :: "(nat \<Rightarrow> bool) \<Rightarrow> Message \<Rightarrow> scan_state option" where
  "salt_worker probe d =
     map_option (\<lambda>s. s\<lparr>posted := posted s @ [ErrorObj ''Not Found'']\<rparr>)
       (scan_loop probe d (offset d) \<lparr>examined = [], posted = []\<rparr>)"

text \<open>The task that \<^verbatim>\<open>heavyComputation\<close> builds for the worker of index \<open>i\<close>.\<close>

definition task_for :: "nat \<Rightarrow> nat \<Rightarrow> nat \<Rightarrow> Message" where
  "task_for workerNum mx i = \<lparr>workerNumber = workerNum, offset = i, max' = mx\<rparr>"

text \<open>
  The outcome \<^verbatim>\<open>NotFound{reason}\<close> in the words of the specification, as a value of the
  response class: \<^verbatim>\<open>isSuccess\<close> false and the reason as the error message.
\<close>

definition spec_NotFound :: "string \<Rightarrow> payload" where
  "spec_NotFound reason =
     Resp \<lparr>isSuccess = False, data = None, error = Some \<lparr>message = reason\<rparr>\<rparr>"

section \<open>The main thread (app.service.ts)\<close>

text \<open>
  What a worker thread can raise on its \<^verbatim>\<open>Worker\<close> object in the main thread: a
  message it posted, an uncaught exception (\<^verbatim>\<open>'error'\<close>), and its end with an exit code
  (\<^verbatim>\<open>'exit'\<close>).
\<close>

datatype event =
    MessageEv payload
  | ErrorEv string
  | ExitEv int

text \<open>
  The values given to \<^verbatim>\<open>reject\<close> in \<^verbatim>\<open>spawn\<close>: the message itself, the error of
  the \<^verbatim>\<open>'error'\<close> event, and \<^verbatim>\<open>new Error(`Worker stopped with exitcode ${code}`)\<close>.
\<close>

datatype reason =
    RejMessage payload
  | RejError string
  | RejExit int

datatype promise =
    Pending
  | Fulfilled payload
  | Rejected reason

text \<open>Settling a promise a second time does nothing.\<close>

fun resolve :: "payload \<Rightarrow> promise \<Rightarrow> promise" where
  "resolve v Pending = Fulfilled v"
| "resolve v p = p"

fun reject :: "reason \<Rightarrow> promise \<Rightarrow> promise" where
  "reject r Pending = Rejected r"
| "reject r p = p"

text \<open>
  Lines written by \<^verbatim>\<open>console.log\<close> in the main thread: \<^verbatim>\<open>worker ${msg.offset} exit\<close>,
  \<^verbatim>\<open>'promise error', error\<close> and the \<^verbatim>\<open>'result', result\<close> of the controller. The
  line with the elapsed time depends on the clock and is left out. The error caught by
  \<^verbatim>\<open>heavyComputation\<close> is the \<^verbatim>\<open>AggregateError\<close> of \<^verbatim>\<open>Promise.any\<close>, with its
  \<^verbatim>\<open>errors\<close>, or what \<^verbatim>\<open>new Worker\<close> threw.
\<close>

datatype caught =
    AggregateError "reason list"
  | Thrown string

datatype log_entry =
    WorkerExit nat
  | PromiseError caught
  | Result "payload option"

text \<open>
  \<^verbatim>\<open>class SpawnWorker { worker; promise }\<close>. Of the \<^verbatim>\<open>Worker\<close> the record keeps the
  task posted to it, the events its thread has still to raise (\<open>outbox\<close>, in the order the
  thread produces them), which of the three \<^verbatim>\<open>once\<close> listeners of \<^verbatim>\<open>spawn\<close> are
  still attached, and whether the thread is running.
\<close>

record SpawnWorker =
  task :: Message
  outbox :: "event list"
  onMessage :: bool
  onError :: bool
  onExit :: bool
  running :: bool
  promise :: promise

record world =
  workers :: "SpawnWorker list"
  console :: "log_entry list"

text \<open>
  The environment: for the task posted to a new worker, either \<^verbatim>\<open>new Worker\<close> throws
  (\<open>Inl\<close>), or the thread starts and raises the given events in that order (\<open>Inr\<close>).
\<close>

type_synonym threads = "Message \<Rightarrow> string + event list"

text \<open>
  A thread that runs the worker script to its end and does nothing else: it raises one
  \<^verbatim>\<open>'message'\<close> event for each call of \<^verbatim>\<open>postMessage\<close>, and stays alive, listening
  on its port. (A handler that never returns can only come from \<^verbatim>\<open>workerNumber\<close> 0, which
  \<^verbatim>\<open>heavyComputation\<close> never sends.)
\<close>

definition salt_thread :: "(nat \<Rightarrow> bool) \<Rightarrow> threads" where
  "salt_thread probe msg =
     Inr (case salt_worker probe msg of None \<Rightarrow> [] | Some s \<Rightarrow> map MessageEv (posted s))"

subsection \<open>spawn\<close>

text \<open>The three listeners that \<^verbatim>\<open>spawn\<close> attaches, as functions on the promise.\<close>

definition on_message :: "payload \<Rightarrow> promise \<Rightarrow> promise" where
  "on_message msg p =
     (if truthy (isSuccess_of msg) then resolve msg p else reject (RejMessage msg) p)"

definition on_error :: "string \<Rightarrow> promise \<Rightarrow> promise" where
  "on_error e p = reject (RejError e) p"

definition on_exit :: "Message \<Rightarrow> int \<Rightarrow> promise \<Rightarrow> promise \<times> log_entry list" where
  "on_exit msg code p =
     ((if code \<noteq> 0 then reject (RejExit code) p else p), [WorkerExit (offset msg)])"

definition spawn :: "threads \<Rightarrow> Message \<Rightarrow> string + SpawnWorker" where
  "spawn th msg =
     (case th msg of
        Inl e \<Rightarrow> Inl e
      | Inr evs \<Rightarrow>
          Inr \<lparr>task = msg, outbox = evs, onMessage = True, onError = True, onExit = True,
               running = True, promise = Pending\<rparr>)"

text \<open>
  An event raised on a worker calls the listener for it if one is attached; a \<^verbatim>\<open>once\<close>
  listener is detached by its first call. With \<^verbatim>\<open>'exit'\<close> the thread has ended.
\<close>

fun emit :: "event \<Rightarrow> SpawnWorker \<Rightarrow> SpawnWorker \<times> log_entry list" where
  "emit (MessageEv m) h =
     (if onMessage h
      then (h\<lparr>onMessage := False, promise := on_message m (promise h)\<rparr>, [])
      else (h, []))"
| "emit (ErrorEv e) h =
     (if onError h
      then (h\<lparr>onError := False, promise := on_error e (promise h)\<rparr>, [])
      else (h, []))"
| "emit (ExitEv code) h =
     (if onExit h
      then (case on_exit (task h) code (promise h) of
              (p, l) \<Rightarrow> (h\<lparr>running := False, onExit := False, promise := p\<rparr>, l))
      else (h\<lparr>running := False\<rparr>, []))"

text \<open>The event loop hands the next event of worker \<open>i\<close> to the main thread.\<close>

definition deliver :: "nat \<Rightarrow> world \<Rightarrow> world" where
  "deliver i w =
     (if i < length (workers w)
      then (case outbox (workers w ! i) of
              [] \<Rightarrow> w
            | ev # rest \<Rightarrow>
                (case emit ev ((workers w ! i)\<lparr>outbox := rest\<rparr>) of
                   (h, l) \<Rightarrow> w\<lparr>workers := (workers w)[i := h], console := console w @ l\<rparr>))
      else w)"

subsection \<open>Promise.any\<close>

datatype any_outcome =
    AnyFulfilled payload
  | AnyRejected "reason list"

fun first_fulfilled :: "promise list \<Rightarrow> payload option" where
  "first_fulfilled [] = None"
| "first_fulfilled (Fulfilled v # ps) = Some v"
| "first_fulfilled (p # ps) = first_fulfilled ps"

fun all_rejected :: "promise list \<Rightarrow> reason list option" where
  "all_rejected [] = Some []"
| "all_rejected (Rejected r # ps) = map_option ((#) r) (all_rejected ps)"
| "all_rejected (p # ps) = None"

text \<open>
  \<^verbatim>\<open>Promise.any\<close> is fulfilled as soon as one of the promises is, and rejected with an
  \<^verbatim>\<open>AggregateError\<close> of all the reasons, in the order of the promises, once every one is
  rejected. Until then it is pending (\<open>None\<close>). It is looked at after every event, and an
  event settles at most one promise, so the fulfilled promise found is the first in time.
\<close>

definition promise_any :: "promise list \<Rightarrow> any_outcome option" where
  "promise_any ps =
     (case first_fulfilled ps of
        Some v \<Rightarrow> Some (AnyFulfilled v)
      | None \<Rightarrow> map_option AnyRejected (all_rejected ps))"

text \<open>
  \<^verbatim>\<open>await Promise.any(promises)\<close>: events are delivered, in the order \<open>sched\<close> of worker
  indices that the threads and the event loop happen to produce, until the promise is
  settled. With no event left and the promise pending, the \<^verbatim>\<open>await\<close> never returns
  (\<open>None\<close>).
\<close>

fun await_any :: "nat list \<Rightarrow> world \<Rightarrow> (any_outcome \<times> world) option" where
  "await_any [] w =
     (case promise_any (map promise (workers w)) of
        Some r \<Rightarrow> Some (r, w)
      | None \<Rightarrow> None)"
| "await_any (i # sched) w =
     (case promise_any (map promise (workers w)) of
        Some r \<Rightarrow> Some (r, w)
      | None \<Rightarrow> await_any sched (deliver i w))"

subsection \<open>terminate\<close>

definition removeAllListeners :: "SpawnWorker \<Rightarrow> SpawnWorker" where
  "removeAllListeners h = h\<lparr>onMessage := False, onError := False, onExit := False\<rparr>"

text \<open>
  \<^verbatim>\<open>worker.terminate()\<close> stops a running thread, which raises \<^verbatim>\<open>'exit'\<close> with code 1;
  its promise is fulfilled when that event has been raised. On a thread that has ended it
  does nothing.
\<close>

definition worker_terminate :: "SpawnWorker \<Rightarrow> SpawnWorker \<times> log_entry list" where
  "worker_terminate h = (if running h then emit (ExitEv 1) (h\<lparr>outbox := []\<rparr>) else (h, []))"

fun terminate_each :: "SpawnWorker list \<Rightarrow> SpawnWorker list \<times> log_entry list" where
  "terminate_each [] = ([], [])"
| "terminate_each (h # hs) =
     (case worker_terminate (removeAllListeners h) of
        (h', l) \<Rightarrow> (case terminate_each hs of (hs', ls) \<Rightarrow> (h' # hs', l @ ls)))"

definition terminate :: "world \<Rightarrow> world" where
  "terminate w =
     (case terminate_each (workers w) of
        (hs, l) \<Rightarrow> w\<lparr>workers := hs, console := console w @ l\<rparr>)"

subsection \<open>heavyComputation and the controller\<close>

text \<open>
  The loop \<^verbatim>\<open>for (let i = 0; i < workerNum; i++)\<close> over the indices still to come. When
  \<^verbatim>\<open>spawn\<close> throws, the workers pushed so far stay in \<^verbatim>\<open>workers\<close>.
\<close>

fun spawn_loop ::
    "threads \<Rightarrow> nat \<Rightarrow> nat \<Rightarrow> nat list \<Rightarrow> SpawnWorker list \<Rightarrow> SpawnWorker list \<times> string option" where
  "spawn_loop th workerNum mx [] ws = (ws, None)"
| "spawn_loop th workerNum mx (i # is) ws =
     (case spawn th (task_for workerNum mx i) of
        Inl e \<Rightarrow> (ws, Some e)
      | Inr h \<Rightarrow> spawn_loop th workerNum mx is (ws @ [h]))"

text \<open>
  The body of \<^verbatim>\<open>heavyComputation\<close> with its two constants \<^verbatim>\<open>workerNum\<close> and
  \<^verbatim>\<open>max\<close> as arguments. The value is the returned \<^verbatim>\<open>result\<close> (\<open>None\<close> for
  \<^verbatim>\<open>undefined\<close>) and the world left behind; \<open>None\<close> for the whole is a call whose
  \<^verbatim>\<open>await\<close> never returns.
\<close>

definition heavyComputation_with ::
    "threads \<Rightarrow> nat \<Rightarrow> nat \<Rightarrow> nat list \<Rightarrow> (payload option \<times> world) option" where
  "heavyComputation_with th workerNum mx sched =
     (case spawn_loop th workerNum mx [0..<workerNum] [] of
        (ws, Some e) \<Rightarrow>
          Some (None, terminate \<lparr>workers = ws, console = [PromiseError (Thrown e)]\<rparr>)
      | (ws, None) \<Rightarrow>
          (case await_any sched \<lparr>workers = ws, console = []\<rparr> of
             None \<Rightarrow> None
           | Some (AnyFulfilled v, w) \<Rightarrow> Some (Some v, terminate w)
           | Some (AnyRejected errs, w) \<Rightarrow>
               Some (None,
                     terminate (w\<lparr>console := console w @ [PromiseError (AggregateError errs)]\<rparr>))))"

definition heavyComputation :: "threads \<Rightarrow> nat list \<Rightarrow> (payload option \<times> world) option" where
  "heavyComputation th sched = heavyComputation_with th 5 500000 sched"

text \<open>
  \<^verbatim>\<open>AppController.getHeavy\<close>: the body of the response is \<^verbatim>\<open>{ data: 'ok' }\<close>; its one
  field is written \<open>body_data\<close>.
\<close>

record response =
  body_data :: string

definition getHeavy :: "threads \<Rightarrow> nat list \<Rightarrow> (response \<times> world) option" where
  "getHeavy th sched =
     (case heavyComputation th sched of
        None \<Rightarrow> None
      | Some (result, w) \<Rightarrow>
          Some (\<lparr>body_data = ''ok''\<rparr>, w\<lparr>console := console w @ [Result result]\<rparr>))"

section \<open>Notions used in the proofs\<close>

text \<open>A worker as \<^verbatim>\<open>spawn\<close> returns it, and the events a thread of the environment raises.\<close>

definition started :: "Message \<Rightarrow> event list \<Rightarrow> SpawnWorker" where
  "started msg evs =
     \<lparr>task = msg, outbox = evs, onMessage = True, onError = True, onExit = True,
      running = True, promise = Pending\<rparr>"

definition events_of :: "threads \<Rightarrow> Message \<Rightarrow> event list" where
  "events_of th msg = (case th msg of Inl e \<Rightarrow> [] | Inr evs \<Rightarrow> evs)"

text \<open>A worker after \<^verbatim>\<open>removeAllListeners\<close> and \<^verbatim>\<open>terminate\<close>.\<close>

definition stopped :: "SpawnWorker \<Rightarrow> SpawnWorker" where
  "stopped h = h\<lparr>outbox := (if running h then [] else outbox h),
                 onMessage := False, onError := False, onExit := False, running := False\<rparr>"

fun is_rejected :: "promise \<Rightarrow> bool" where
  "is_rejected (Rejected r) = True"
| "is_rejected p = False"

text \<open>A promise is only ever fulfilled with a message whose \<^verbatim>\<open>isSuccess\<close> is true.\<close>

fun honest :: "promise \<Rightarrow> bool" where
  "honest (Fulfilled v) = (isSuccess_of v = Some True)"
| "honest p = True"

fun is_message :: "event \<Rightarrow> bool" where
  "is_message (MessageEv m) = True"
| "is_message ev = False"

text \<open>
  A crash of a thread, as the main thread sees it: an \<^verbatim>\<open>'error'\<close> event, or an
  \<^verbatim>\<open>'exit'\<close> with a code other than 0; and the reason its promise is rejected with.
\<close>

fun is_crash :: "event \<Rightarrow> bool" where
  "is_crash (ErrorEv e) = True"
| "is_crash (ExitEv code) = (code \<noteq> 0)"
| "is_crash (MessageEv m) = False"

fun crash_reason :: "event \<Rightarrow> reason" where
  "crash_reason (ErrorEv e) = RejError e"
| "crash_reason (ExitEv code) = RejExit code"
| "crash_reason (MessageEv m) = RejMessage m"

text \<open>
  A worker that only posts messages and whose promise is rejected, or will be by its next
  message, with a reason satisfying \<open>P\<close>.
\<close>

definition failing :: "(reason \<Rightarrow> bool) \<Rightarrow> SpawnWorker \<Rightarrow> bool" where
  "failing P h \<longleftrightarrow>
     list_all is_message (outbox h) \<and>
     (case promise h of
        Rejected r \<Rightarrow> P r
      | Fulfilled v \<Rightarrow> False
      | Pending \<Rightarrow>
          onMessage h \<and>
          (case outbox h of
             MessageEv m # rest \<Rightarrow> isSuccess_of m \<noteq> Some True \<and> P (RejMessage m)
           | _ \<Rightarrow> False))"

subsection \<open>The candidates of a stride, in closed form\<close>

function stride :: "nat \<Rightarrow> nat \<Rightarrow> nat \<Rightarrow> nat list" where
  "stride w mx i = (if i < mx \<and> 0 < w then i # stride w mx (i + w) else [])"
  by pat_completeness auto
termination
  by (relation "measure (\<lambda>(w, mx, i). mx - i)") auto

declare stride.simps [simp del]

lemma stride_ge: "c \<in> set (stride w mx i) \<Longrightarrow> i \<le> c"
proof (induction w mx i rule: stride.induct)
  case (1 w mx i)
  show ?case
  proof (cases "i < mx \<and> 0 < w")
    case True
    with "1.prems" have "c = i \<or> c \<in> set (stride w mx (i + w))"
      by (subst (asm) stride.simps) simp
    with "1.IH" True show ?thesis by auto
  next
    case False
    then have "stride w mx i = []" by (subst stride.simps) auto
    with "1.prems" show ?thesis by simp
  qed
qed

lemma distinct_stride: "distinct (stride w mx i)"
proof (induction w mx i rule: stride.induct)
  case (1 w mx i)
  show ?case
  proof (cases "i < mx \<and> 0 < w")
    case True
    have "i \<notin> set (stride w mx (i + w))"
      using stride_ge [of i w mx "i + w"] True by auto
    with "1.IH" True show ?thesis by (subst stride.simps) simp
  next
    case False
    then have "stride w mx i = []" by (subst stride.simps) auto
    then show ?thesis by simp
  qed
qed

lemma set_stride:
  "0 < w \<Longrightarrow> set (stride w mx i) = {c. i \<le> c \<and> c < mx \<and> w dvd (c - i)}"
proof (induction w mx i rule: stride.induct)
  case (1 w mx i)
  show ?case
  proof (cases "i < mx")
    case True
    have step: "set (stride w mx i) = insert i (set (stride w mx (i + w)))"
      using True "1.prems" by (subst stride.simps) simp
    have ih: "set (stride w mx (i + w)) = {c. i + w \<le> c \<and> c < mx \<and> w dvd (c - (i + w))}"
      using "1.IH" True "1.prems" by simp
    have "insert i {c. i + w \<le> c \<and> c < mx \<and> w dvd (c - (i + w))}
          = {c. i \<le> c \<and> c < mx \<and> w dvd (c - i)}" (is "?L = ?R")
    proof (rule set_eqI)
      fix c
      show "c \<in> ?L \<longleftrightarrow> c \<in> ?R"
      proof
        assume "c \<in> ?L"
        then consider "c = i" | "i + w \<le> c" "c < mx" "w dvd (c - (i + w))" by auto
        then show "c \<in> ?R"
        proof cases
          case 1
          with True show ?thesis by simp
        next
          case 2
          have e: "c - i = (c - (i + w)) + w" using 2(1) by simp
          have "w dvd (c - (i + w)) + w" using 2(3) by simp
          then have "w dvd (c - i)" by (simp only: e)
          moreover have "i \<le> c" using 2(1) by simp
          ultimately show ?thesis using 2(2) by simp
        qed
      next
        assume r: "c \<in> ?R"
        show "c \<in> ?L"
        proof (cases "c = i")
          case True
          then show ?thesis by simp
        next
          case False
          with r have pos: "0 < c - i" by simp
          from r have d: "w dvd (c - i)" by simp
          from d pos have "w \<le> c - i" by (rule dvd_imp_le)
          with pos have le: "i + w \<le> c" by linarith
          have "w dvd (c - i) - w" using d by (simp only: dvd_minus_self) simp
          moreover have "c - (i + w) = (c - i) - w" by simp
          ultimately have "w dvd (c - (i + w))" by (simp only:)
          with le r show ?thesis by simp
        qed
      qed
    qed
    with step ih show ?thesis by simp
  next
    case False
    then have "stride w mx i = []" by (subst stride.simps) simp
    with False show ?thesis by auto
  qed
qed

lemma set_stride_mod:
  assumes "i < n"
  shows "set (stride n mx i) = {c. c < mx \<and> c mod n = i}"
proof -
  from assms have n: "0 < n" by simp
  have "{c. i \<le> c \<and> c < mx \<and> n dvd (c - i)} = {c. c < mx \<and> c mod n = i}" (is "?L = ?R")
  proof (rule set_eqI)
    fix c
    show "c \<in> ?L \<longleftrightarrow> c \<in> ?R"
    proof
      assume l: "c \<in> ?L"
      then obtain k where k: "c - i = n * k" by (auto elim: dvdE)
      from l have "i \<le> c" by simp
      with k have "c = i + n * k" by linarith
      with assms have "c mod n = i" by simp
      with l show "c \<in> ?R" by simp
    next
      assume r: "c \<in> ?R"
      then have i: "i = c mod n" by simp
      have "c - c mod n = n * (c div n)" by (simp add: minus_mod_eq_mult_div)
      then have "n dvd (c - c mod n)" by simp
      with r i show "c \<in> ?L" by simp
    qed
  qed
  with set_stride [OF n] show ?thesis by simp
qed

subsection \<open>The loop of the worker returns when the stride is positive\<close>

lemma scan_loop_stride:
  "0 < workerNumber d \<Longrightarrow>
   scan_loop probe d i s =
     Some (s\<lparr>examined := examined s @ stride (workerNumber d) (max' d) i,
             posted := posted s @ map SaltObj (filter probe (stride (workerNumber d) (max' d) i))\<rparr>)"
proof (induction "workerNumber d" "max' d" i arbitrary: s rule: stride.induct)
  case (1 i)
  show ?case
  proof (cases "i < max' d")
    case True
    have unfold: "stride (workerNumber d) (max' d) i
                  = i # stride (workerNumber d) (max' d) (i + workerNumber d)"
      using True "1.prems" by (subst stride.simps) simp
    have "scan_loop probe d i s = scan_loop probe d (i + workerNumber d)
             (s\<lparr>examined := examined s @ [i],
                posted := (if probe i then posted s @ [SaltObj i] else posted s)\<rparr>)"
      using True by (subst scan_loop.simps) simp
    also have "\<dots> = Some (s\<lparr>examined := examined s @ stride (workerNumber d) (max' d) i,
             posted := posted s @ map SaltObj (filter probe (stride (workerNumber d) (max' d) i))\<rparr>)"
      using True "1.prems" by (subst "1.hyps") (simp_all add: unfold)
    finally show ?thesis .
  next
    case False
    then have "stride (workerNumber d) (max' d) i = []" by (subst stride.simps) simp
    with False show ?thesis by (subst scan_loop.simps) simp
  qed
qed

lemma salt_worker_stride:
  "0 < workerNumber d \<Longrightarrow>
   salt_worker probe d =
     Some \<lparr>examined = stride (workerNumber d) (max' d) (offset d),
           posted = map SaltObj (filter probe (stride (workerNumber d) (max' d) (offset d)))
                    @ [ErrorObj ''Not Found'']\<rparr>"
  by (simp add: salt_worker_def scan_loop_stride)

section \<open>Facts about the partition\<close>

lemma parts_distinct:
  "k \<le> n \<Longrightarrow> distinct (concat (map (stride n mx) [0..<k]))"
proof (induction k)
  case 0
  then show ?case by simp
next
  case (Suc k)
  have "set (concat (map (stride n mx) [0..<k])) \<inter> set (stride n mx k) = {}"
  proof -
    { fix c assume a: "c \<in> set (concat (map (stride n mx) [0..<k]))" and b: "c \<in> set (stride n mx k)"
      from a obtain i where i: "i < k" "c \<in> set (stride n mx i)" by auto
      from i Suc.prems have "c mod n = i" by (simp add: set_stride_mod)
      moreover from b Suc.prems have "c mod n = k" by (simp add: set_stride_mod)
      ultimately have False using i(1) by simp }
    then show ?thesis by blast
  qed
  with Suc show ?case by (simp add: distinct_stride)
qed

lemma parts_cover:
  "0 < n \<Longrightarrow> set (concat (map (stride n mx) [0..<n])) = {0..<mx}"
proof (rule set_eqI)
  fix c
  assume n: "0 < n"
  have "c \<in> set (concat (map (stride n mx) [0..<n])) \<longleftrightarrow> (\<exists>i<n. c \<in> set (stride n mx i))"
    by auto
  also have "\<dots> \<longleftrightarrow> (\<exists>i<n. c < mx \<and> c mod n = i)"
    by (auto simp: set_stride_mod)
  also have "\<dots> \<longleftrightarrow> c < mx" using n by auto
  finally show "c \<in> set (concat (map (stride n mx) [0..<n])) \<longleftrightarrow> c \<in> {0..<mx}" by simp
qed

section \<open>Facts about cleanup\<close>

lemma worker_terminate_removed:
  "worker_terminate (removeAllListeners h) = (stopped h, [])"
  by (cases h) (simp add: worker_terminate_def removeAllListeners_def stopped_def)

lemma terminate_each_stopped: "terminate_each ws = (map stopped ws, [])"
  by (induction ws) (simp_all add: worker_terminate_removed)

lemma terminate_stopped: "terminate w = w\<lparr>workers := map stopped (workers w)\<rparr>"
  by (simp add: terminate_def terminate_each_stopped)

lemma stopped_fields [simp]:
  "promise (stopped h) = promise h" "task (stopped h) = task h"
  "\<not> running (stopped h)" "\<not> onMessage (stopped h)" "\<not> onError (stopped h)" "\<not> onExit (stopped h)"
  by (simp_all add: stopped_def)

lemma exit_listener_would_reject:
  "running h \<Longrightarrow> onExit h \<Longrightarrow> promise h = Pending \<Longrightarrow>
   promise (fst (worker_terminate h)) = Rejected (RejExit 1)
   \<and> snd (worker_terminate h) = [WorkerExit (offset (task h))]"
  by (simp add: worker_terminate_def on_exit_def)

section \<open>Facts about event delivery and the race\<close>

lemma truthy_iff: "truthy b \<longleftrightarrow> b = Some True"
  by (cases b) auto

lemma emit_task [simp]: "task (fst (emit ev h)) = task h"
  by (cases ev) (simp_all add: on_exit_def)

lemma emit_honest: "honest (promise h) \<Longrightarrow> honest (promise (fst (emit ev h)))"
  by (cases ev; cases "promise h")
     (simp_all add: on_message_def on_error_def on_exit_def truthy_iff)

lemma emit_settled: "promise h \<noteq> Pending \<Longrightarrow> promise (fst (emit ev h)) = promise h"
  by (cases ev; cases "promise h")
     (simp_all add: on_message_def on_error_def on_exit_def)

lemma length_deliver [simp]: "length (workers (deliver i w)) = length (workers w)"
  by (simp add: deliver_def split: list.splits prod.splits)

lemma deliver_other: "k \<noteq> i \<Longrightarrow> workers (deliver i w) ! k = workers w ! k"
  by (simp add: deliver_def split: list.splits prod.splits)

lemma deliver_outside: "length (workers w) \<le> i \<Longrightarrow> deliver i w = w"
  by (simp add: deliver_def)

lemma deliver_at:
  assumes "i < length (workers w)"
  shows "workers (deliver i w) ! i =
           (case outbox (workers w ! i) of
              [] \<Rightarrow> workers w ! i
            | ev # rest \<Rightarrow> fst (emit ev ((workers w ! i)\<lparr>outbox := rest\<rparr>)))"
  using assms by (simp add: deliver_def split: list.splits prod.splits)

lemma deliver_task: "map task (workers (deliver i w)) = map task (workers w)"
proof (rule nth_equalityI)
  show "length (map task (workers (deliver i w))) = length (map task (workers w))" by simp
next
  fix k assume "k < length (map task (workers (deliver i w)))"
  then have k: "k < length (workers w)" by simp
  show "map task (workers (deliver i w)) ! k = map task (workers w) ! k"
  proof (cases "k = i")
    case True
    with k show ?thesis by (simp add: deliver_at split: list.splits)
  next
    case False
    with k show ?thesis by (simp add: deliver_other)
  qed
qed

lemma deliver_honest:
  assumes "\<forall>k<length (workers w). honest (promise (workers w ! k))"
  shows "\<forall>k<length (workers (deliver i w)). honest (promise (workers (deliver i w) ! k))"
proof (intro allI impI)
  fix k assume "k < length (workers (deliver i w))"
  then have k: "k < length (workers w)" by simp
  show "honest (promise (workers (deliver i w) ! k))"
  proof (cases "k = i")
    case True
    with k assms show ?thesis
      by (auto simp: deliver_at intro!: emit_honest split: list.splits)
  next
    case False
    with k assms show ?thesis by (simp add: deliver_other)
  qed
qed

lemma first_fulfilled_mem: "first_fulfilled ps = Some v \<Longrightarrow> Fulfilled v \<in> set ps"
  by (induction ps rule: first_fulfilled.induct) auto

lemma first_fulfilled_ex: "Fulfilled v \<in> set ps \<Longrightarrow> \<exists>v'. first_fulfilled ps = Some v'"
  by (induction ps rule: first_fulfilled.induct) auto

lemma all_rejected_iff: "all_rejected ps = Some errs \<longleftrightarrow> ps = map Rejected errs"
  by (induction ps arbitrary: errs rule: all_rejected.induct) auto

lemma all_rejected_pending: "Pending \<in> set ps \<Longrightarrow> all_rejected ps = None"
  by (induction ps rule: all_rejected.induct) auto

lemma first_fulfilled_rejected [simp]: "first_fulfilled (map Rejected errs) = None"
  by (induction errs) auto

lemma promise_any_rejected:
  "promise_any ps = Some (AnyRejected errs) \<longleftrightarrow> ps = map Rejected errs"
  by (auto simp: promise_any_def all_rejected_iff split: option.splits)

lemma promise_any_fulfilled:
  "promise_any ps = Some (AnyFulfilled v) \<Longrightarrow> Fulfilled v \<in> set ps"
  by (auto simp: promise_any_def first_fulfilled_mem split: option.splits)

lemma await_any_rejected:
  "await_any sched w = Some (AnyRejected errs, w') \<Longrightarrow>
   map promise (workers w') = map Rejected errs"
  by (induction sched arbitrary: w) (auto simp: promise_any_rejected split: option.splits)

lemma await_any_task:
  "await_any sched w = Some (r, w') \<Longrightarrow> map task (workers w') = map task (workers w)"
  by (induction sched arbitrary: w) (auto simp: deliver_task split: option.splits)

lemma await_any_honest:
  "await_any sched w = Some (AnyFulfilled v, w') \<Longrightarrow>
   \<forall>k<length (workers w). honest (promise (workers w ! k)) \<Longrightarrow>
   isSuccess_of v = Some True"
proof (induction sched arbitrary: w)
  case Nil
  then have "Fulfilled v \<in> set (map promise (workers w))"
    by (auto dest: promise_any_fulfilled split: option.splits)
  then obtain k where "k < length (workers w)" "promise (workers w ! k) = Fulfilled v"
    by (auto simp: in_set_conv_nth)
  with Nil.prems(2) show ?case by (metis honest.simps(1))
next
  case (Cons i sched)
  show ?case
  proof (cases "promise_any (map promise (workers w))")
    case None
    with Cons.prems(1) have "await_any sched (deliver i w) = Some (AnyFulfilled v, w')" by simp
    then show ?thesis
      using Cons.IH deliver_honest [OF Cons.prems(2)] by blast
  next
    case (Some r)
    with Cons.prems(1) have "promise_any (map promise (workers w)) = Some (AnyFulfilled v)" by simp
    then have "Fulfilled v \<in> set (map promise (workers w))" by (rule promise_any_fulfilled)
    then obtain k where "k < length (workers w)" "promise (workers w ! k) = Fulfilled v"
      by (auto simp: in_set_conv_nth)
    with Cons.prems(2) show ?thesis by (metis honest.simps(1))
  qed
qed

lemma await_any_fulfilled_now:
  "Fulfilled v \<in> set (map promise (workers w)) \<Longrightarrow>
   \<exists>v'. await_any sched w = Some (AnyFulfilled v', w)"
proof -
  assume "Fulfilled v \<in> set (map promise (workers w))"
  then obtain v' where "first_fulfilled (map promise (workers w)) = Some v'"
    using first_fulfilled_ex by blast
  then have "promise_any (map promise (workers w)) = Some (AnyFulfilled v')"
    by (simp add: promise_any_def)
  then show ?thesis by (cases sched) auto
qed

lemma await_any_success:
  assumes "k < length (workers w)"
      and "promise (workers w ! k) = Pending"
      and "onMessage (workers w ! k)"
      and "outbox (workers w ! k) = MessageEv m # rest"
      and "isSuccess_of m = Some True"
      and "k \<in> set sched"
  shows "\<exists>v w'. await_any sched w = Some (AnyFulfilled v, w')"
  using assms
proof (induction sched arbitrary: w)
  case Nil
  then show ?case by simp
next
  case (Cons i sched)
  have pend: "Pending \<in> set (map promise (workers w))"
    using Cons.prems(1,2) by (metis length_map nth_map nth_mem)
  show ?case
  proof (cases "promise_any (map promise (workers w))")
    case (Some r)
    have "\<exists>v. r = AnyFulfilled v"
    proof (cases r)
      case (AnyRejected errs)
      with Some have "map promise (workers w) = map Rejected errs"
        by (simp add: promise_any_rejected)
      with pend show ?thesis by auto
    qed simp
    with Some show ?thesis by auto
  next
    case None
    then have step: "await_any (i # sched) w = await_any sched (deliver i w)" by simp
    show ?thesis
    proof (cases "i = k")
      case True
      have "promise (workers (deliver k w) ! k) = Fulfilled m"
        using Cons.prems(1-5) by (simp add: deliver_at on_message_def)
      then have "Fulfilled m \<in> set (map promise (workers (deliver k w)))"
        using Cons.prems(1) by (metis length_deliver length_map nth_map nth_mem)
      from await_any_fulfilled_now [OF this, of sched] obtain v' where
        "await_any sched (deliver k w) = Some (AnyFulfilled v', deliver k w)" by blast
      with step True show ?thesis by simp
    next
      case False
      with Cons.prems have "k \<in> set sched" by simp
      moreover have "workers (deliver i w) ! k = workers w ! k"
        using False by (simp add: deliver_other)
      ultimately have "\<exists>v w'. await_any sched (deliver i w) = Some (AnyFulfilled v, w')"
        using Cons.prems(1-5) by (intro Cons.IH) simp_all
      with step show ?thesis by simp
    qed
  qed
qed

lemma rejected_list:
  "\<forall>p\<in>set ps. \<exists>r. p = Rejected r \<and> P r \<Longrightarrow> \<exists>errs. ps = map Rejected errs \<and> (\<forall>r\<in>set errs. P r)"
proof (induction ps)
  case Nil
  then show ?case by simp
next
  case (Cons p ps)
  then obtain errs where e: "ps = map Rejected errs" "\<forall>r\<in>set errs. P r" by auto
  from Cons.prems obtain r where r: "p = Rejected r" "P r" by auto
  from e r have "p # ps = map Rejected (r # errs) \<and> (\<forall>x\<in>set (r # errs). P x)" by simp
  then show ?case by (rule exI)
qed

lemma failing_not_fulfilled:
  "\<forall>k<length ws. failing P (ws ! k) \<Longrightarrow> first_fulfilled (map promise ws) = None"
proof (induction ws)
  case Nil
  then show ?case by simp
next
  case (Cons h ws)
  from Cons.prems have h: "failing P h" by auto
  from Cons.prems have "\<forall>k<length ws. failing P (ws ! k)" by auto
  with Cons.IH have "first_fulfilled (map promise ws) = None" by simp
  with h show ?case by (cases "promise h") (simp_all add: failing_def)
qed

lemma failing_emit:
  assumes "failing P h" and "outbox h = ev # rest"
  shows "failing P (fst (emit ev (h\<lparr>outbox := rest\<rparr>)))"
    and "snd (emit ev (h\<lparr>outbox := rest\<rparr>)) = []"
    and "is_rejected (promise (fst (emit ev (h\<lparr>outbox := rest\<rparr>))))"
proof -
  from assms obtain m where ev: "ev = MessageEv m" and rest: "list_all is_message rest"
    by (cases ev) (auto simp: failing_def)
  show "snd (emit ev (h\<lparr>outbox := rest\<rparr>)) = []" by (simp add: ev)
  show "failing P (fst (emit ev (h\<lparr>outbox := rest\<rparr>)))"
    using assms rest
    by (cases "promise h") (auto simp: ev failing_def on_message_def truthy_iff)
  show "is_rejected (promise (fst (emit ev (h\<lparr>outbox := rest\<rparr>))))"
    using assms
    by (cases "promise h") (auto simp: ev failing_def on_message_def truthy_iff)
qed

lemma failing_deliver:
  assumes inv: "\<forall>k<length (workers w). failing P (workers w ! k)"
  shows "\<forall>k<length (workers (deliver i w)). failing P (workers (deliver i w) ! k)"
    and "console (deliver i w) = console w"
    and "i < length (workers w) \<Longrightarrow> is_rejected (promise (workers (deliver i w) ! i))"
proof -
  show "\<forall>k<length (workers (deliver i w)). failing P (workers (deliver i w) ! k)"
  proof (intro allI impI)
    fix k assume "k < length (workers (deliver i w))"
    then have k: "k < length (workers w)" by simp
    show "failing P (workers (deliver i w) ! k)"
    proof (cases "k = i")
      case True
      with k inv show ?thesis
        by (auto simp: deliver_at failing_emit(1) split: list.splits)
    next
      case False
      with k inv show ?thesis by (simp add: deliver_other)
    qed
  qed
  show "console (deliver i w) = console w"
  proof (cases "i < length (workers w)")
    case True
    show ?thesis
    proof (cases "outbox (workers w ! i)")
      case Nil
      with True show ?thesis by (simp add: deliver_def)
    next
      case (Cons ev rest)
      from inv True have "failing P (workers w ! i)" by simp
      from failing_emit(2) [OF this Cons] True Cons show ?thesis
        by (cases "emit ev ((workers w ! i)\<lparr>outbox := rest\<rparr>)") (simp add: deliver_def)
    qed
  next
    case False
    then show ?thesis by (simp add: deliver_def)
  qed
  show "is_rejected (promise (workers (deliver i w) ! i))" if i: "i < length (workers w)"
  proof (cases "outbox (workers w ! i)")
    case Nil
    from inv i have "failing P (workers w ! i)" by simp
    with Nil have "is_rejected (promise (workers w ! i))"
      by (cases "promise (workers w ! i)") (simp_all add: failing_def)
    with i Nil show ?thesis by (simp add: deliver_at)
  next
    case (Cons ev rest)
    from inv i have "failing P (workers w ! i)" by simp
    from failing_emit(3) [OF this Cons] i Cons show ?thesis by (simp add: deliver_at)
  qed
qed

lemma await_any_all_fail:
  assumes "\<forall>k<length (workers w). failing P (workers w ! k)"
      and "\<forall>k<length (workers w). promise (workers w ! k) = Pending \<longrightarrow> k \<in> set sched"
  shows "\<exists>errs w'. await_any sched w = Some (AnyRejected errs, w')
           \<and> length errs = length (workers w) \<and> (\<forall>r\<in>set errs. P r)
           \<and> console w' = console w"
  using assms
proof (induction sched arbitrary: w)
  case Nil
  have "\<forall>p\<in>set (map promise (workers w)). \<exists>r. p = Rejected r \<and> P r"
  proof
    fix p assume "p \<in> set (map promise (workers w))"
    then obtain k where k: "k < length (workers w)" "p = promise (workers w ! k)"
      by (auto simp: in_set_conv_nth)
    with Nil.prems have "failing P (workers w ! k)" "promise (workers w ! k) \<noteq> Pending" by auto
    with k show "\<exists>r. p = Rejected r \<and> P r"
      by (cases "promise (workers w ! k)") (simp_all add: failing_def)
  qed
  from rejected_list [OF this] obtain errs where
    e: "map promise (workers w) = map Rejected errs" "\<forall>r\<in>set errs. P r" by blast
  then have "promise_any (map promise (workers w)) = Some (AnyRejected errs)"
    by (simp add: promise_any_rejected)
  moreover from e(1) have "length errs = length (workers w)" by (metis length_map)
  ultimately show ?case using e(2) by simp
next
  case (Cons i sched)
  have nf: "first_fulfilled (map promise (workers w)) = None"
    using Cons.prems(1) by (rule failing_not_fulfilled)
  show ?case
  proof (cases "all_rejected (map promise (workers w))")
    case (Some errs)
    then have e: "map promise (workers w) = map Rejected errs" by (simp add: all_rejected_iff)
    then have len: "length errs = length (workers w)" by (metis length_map)
    have "\<forall>r\<in>set errs. P r"
    proof
      fix r assume "r \<in> set errs"
      then obtain k where k: "k < length errs" "errs ! k = r" by (auto simp: in_set_conv_nth)
      with len have "promise (workers w ! k) = Rejected r"
        using e by (metis length_map nth_map)
      moreover from k len Cons.prems(1) have "failing P (workers w ! k)" by simp
      ultimately show "P r" by (simp add: failing_def)
    qed
    with Some nf len show ?thesis by (simp add: promise_any_def)
  next
    case None
    with nf have step: "await_any (i # sched) w = await_any sched (deliver i w)"
      by (simp add: promise_any_def)
    note d = failing_deliver [OF Cons.prems(1), of i]
    have "\<forall>k<length (workers (deliver i w)).
            promise (workers (deliver i w) ! k) = Pending \<longrightarrow> k \<in> set sched"
    proof (intro allI impI)
      fix k assume k: "k < length (workers (deliver i w))"
        and p: "promise (workers (deliver i w) ! k) = Pending"
      show "k \<in> set sched"
      proof (cases "k = i")
        case True
        with k d(3) have "is_rejected (promise (workers (deliver i w) ! k))" by simp
        with p show ?thesis by simp
      next
        case False
        with p have "promise (workers w ! k) = Pending" by (simp add: deliver_other)
        with k Cons.prems(2) False show ?thesis by auto
      qed
    qed
    from Cons.IH [OF d(1) this] step d(2) show ?thesis by auto
  qed
qed

section \<open>Facts about a whole run\<close>

lemma started_fields [simp]:
  "task (started msg evs) = msg" "outbox (started msg evs) = evs"
  "onMessage (started msg evs)" "onError (started msg evs)" "onExit (started msg evs)"
  "running (started msg evs)" "promise (started msg evs) = Pending"
  by (simp_all add: started_def)

lemma spawn_started: "spawn th msg = Inr h \<longleftrightarrow> (\<exists>evs. th msg = Inr evs \<and> h = started msg evs)"
  by (auto simp: spawn_def started_def split: sum.splits)

lemma spawn_loop_None:
  "spawn_loop th n mx js ws0 = (ws, None) \<Longrightarrow>
   ws = ws0 @ map (\<lambda>i. started (task_for n mx i) (events_of th (task_for n mx i))) js
   \<and> (\<forall>i\<in>set js. th (task_for n mx i) = Inr (events_of th (task_for n mx i)))"
proof (induction js arbitrary: ws0)
  case Nil
  then show ?case by simp
next
  case (Cons i js)
  from Cons.prems obtain h where h: "spawn th (task_for n mx i) = Inr h"
    and rest: "spawn_loop th n mx js (ws0 @ [h]) = (ws, None)"
    by (auto split: sum.splits)
  from h obtain evs where evs: "th (task_for n mx i) = Inr evs" "h = started (task_for n mx i) evs"
    by (auto simp: spawn_started)
  then have "events_of th (task_for n mx i) = evs" by (simp add: events_of_def)
  with Cons.IH [OF rest] evs show ?case by simp
qed

lemma spawn_loop_tasks:
  "spawn_loop th n mx js ws0 = (ws, e) \<Longrightarrow>
   \<exists>ks. map task ws = map task ws0 @ map (task_for n mx) ks \<and> set ks \<subseteq> set js"
proof (induction js arbitrary: ws0)
  case Nil
  then have "map task ws = map task ws0 @ map (task_for n mx) [] \<and> set [] \<subseteq> set ([]::nat list)" by simp
  then show ?case by (rule exI)
next
  case (Cons i js)
  show ?case
  proof (cases "spawn th (task_for n mx i)")
    case (Inl x)
    with Cons.prems have "map task ws = map task ws0 @ map (task_for n mx) [] \<and> set [] \<subseteq> set (i # js)"
      by simp
    then show ?thesis by (rule exI)
  next
    case (Inr h)
    with Cons.prems have "spawn_loop th n mx js (ws0 @ [h]) = (ws, e)" by simp
    from Cons.IH [OF this] obtain ks where
      ks: "map task ws = map task (ws0 @ [h]) @ map (task_for n mx) ks" "set ks \<subseteq> set js" by blast
    from Inr have "task h = task_for n mx i" by (auto simp: spawn_started)
    with ks have "map task ws = map task ws0 @ map (task_for n mx) (i # ks) \<and> set (i # ks) \<subseteq> set (i # js)"
      by auto
    then show ?thesis by (rule exI)
  qed
qed

lemma spawn_loop_all_ok:
  "\<forall>i\<in>set js. \<exists>evs. th (task_for n mx i) = Inr evs \<Longrightarrow>
   \<exists>ws. spawn_loop th n mx js ws0 = (ws, None)"
proof (induction js arbitrary: ws0)
  case Nil
  then show ?case by simp
next
  case (Cons i js)
  from Cons.prems obtain evs where "th (task_for n mx i) = Inr evs" by auto
  then have "spawn th (task_for n mx i) = Inr (started (task_for n mx i) evs)"
    by (simp add: spawn_started)
  moreover from Cons.prems have "\<forall>i\<in>set js. \<exists>evs. th (task_for n mx i) = Inr evs" by simp
  from Cons.IH [OF this] have
    "\<exists>ws. spawn_loop th n mx js (ws0 @ [started (task_for n mx i) evs]) = (ws, None)" .
  ultimately show ?case by simp
qed

lemma spawn_loop_salt:
  "1 \<le> n \<Longrightarrow>
   spawn_loop (salt_thread probe) n mx js ws0 =
     (ws0 @ map (\<lambda>i. started (task_for n mx i)
                   (map MessageEv (map SaltObj (filter probe (stride n mx i))
                                   @ [ErrorObj ''Not Found'']))) js, None)"
proof (induction js arbitrary: ws0)
  case Nil
  then show ?case by simp
next
  case (Cons i js)
  have "spawn (salt_thread probe) (task_for n mx i) =
          Inr (started (task_for n mx i)
                 (map MessageEv (map SaltObj (filter probe (stride n mx i)) @ [ErrorObj ''Not Found''])))"
    using Cons.prems
    by (simp add: spawn_def salt_thread_def salt_worker_stride task_for_def started_def)
  with Cons show ?case by simp
qed

lemma salt_started_failing:
  assumes "P (RejMessage (ErrorObj ''Not Found''))"
      and "\<forall>c\<in>set cs. P (RejMessage (SaltObj c))"
  shows "failing P (started t (map MessageEv (map SaltObj cs @ [ErrorObj ''Not Found''])))"
  using assms by (cases cs) (simp_all add: failing_def list_all_iff)

lemma salt_run:
  assumes n: "1 \<le> n"
      and sched: "{0..<n} \<subseteq> set sched"
      and nf: "P (RejMessage (ErrorObj ''Not Found''))"
      and found: "\<forall>c<mx. probe c \<longrightarrow> P (RejMessage (SaltObj c))"
  shows "\<exists>errs w. heavyComputation_with (salt_thread probe) n mx sched = Some (None, w)
           \<and> length errs = n \<and> (\<forall>r\<in>set errs. P r)
           \<and> console w = [PromiseError (AggregateError errs)]"
proof -
  define ws where "ws = map (\<lambda>i. started (task_for n mx i)
                   (map MessageEv (map SaltObj (filter probe (stride n mx i))
                                   @ [ErrorObj ''Not Found'']))) [0..<n]"
  define w0 where "w0 = \<lparr>workers = ws, console = []\<rparr>"
  have sp: "spawn_loop (salt_thread probe) n mx [0..<n] [] = (ws, None)"
    using spawn_loop_salt [OF n, of probe mx "[0..<n]" "[]"] by (simp add: ws_def)
  have len: "length (workers w0) = n" by (simp add: w0_def ws_def)
  have f: "\<forall>k<length (workers w0). failing P (workers w0 ! k)"
  proof (intro allI impI)
    fix k assume "k < length (workers w0)"
    with len have k: "k < n" by simp
    have "\<forall>c\<in>set (filter probe (stride n mx k)). P (RejMessage (SaltObj c))"
      using found k by (auto simp: set_stride_mod)
    from salt_started_failing [OF nf this] k show "failing P (workers w0 ! k)"
      by (simp add: w0_def ws_def)
  qed
  have p: "\<forall>k<length (workers w0). promise (workers w0 ! k) = Pending \<longrightarrow> k \<in> set sched"
    using sched len by auto
  from await_any_all_fail [OF f p] obtain errs w' where
    a: "await_any sched w0 = Some (AnyRejected errs, w')" "length errs = length (workers w0)"
       "\<forall>r\<in>set errs. P r" "console w' = console w0" by blast
  have "heavyComputation_with (salt_thread probe) n mx sched =
          Some (None, terminate (w'\<lparr>console := console w' @ [PromiseError (AggregateError errs)]\<rparr>))"
    using sp a(1) by (simp add: heavyComputation_with_def w0_def)
  moreover have "console (terminate (w'\<lparr>console := console w' @ [PromiseError (AggregateError errs)]\<rparr>))
                 = [PromiseError (AggregateError errs)]"
    using a(4) by (simp add: terminate_stopped w0_def)
  ultimately show ?thesis using a(2,3) len by blast
qed

lemma salt_run_never_succeeds:
  assumes "1 \<le> n" and "{0..<n} \<subseteq> set sched"
  shows "map_option fst (heavyComputation_with (salt_thread probe) n mx sched) = Some None"
proof -
  from salt_run [OF assms, of "\<lambda>r. True" mx probe] obtain errs w where
    "heavyComputation_with (salt_thread probe) n mx sched = Some (None, w)" by auto
  then show ?thesis by simp
qed

lemma run_stops_workers:
  assumes "heavyComputation_with th workerNum mx sched = Some (r, w)"
  shows "map task (workers w) = map task (fst (spawn_loop th workerNum mx [0..<workerNum] []))
         \<and> list_all (\<lambda>h. \<not> running h \<and> \<not> onMessage h \<and> \<not> onError h \<and> \<not> onExit h) (workers w)"
proof -
  obtain ws e where sp: "spawn_loop th workerNum mx [0..<workerNum] [] = (ws, e)"
    by (cases "spawn_loop th workerNum mx [0..<workerNum] []") auto
  have "\<exists>w'. w = terminate w' \<and> map task (workers w') = map task ws"
  proof (cases e)
    case (Some x)
    with assms sp show ?thesis by (auto simp: heavyComputation_with_def)
  next
    case None
    with assms sp obtain a w1 where
      aw: "await_any sched \<lparr>workers = ws, console = []\<rparr> = Some (a, w1)"
      by (auto simp: heavyComputation_with_def split: option.splits)
    from await_any_task [OF aw] have t: "map task (workers w1) = map task ws" by simp
    from assms sp None aw t show ?thesis
      by (cases a) (auto simp: heavyComputation_with_def)
  qed
  then obtain w' where w': "w = terminate w'" "map task (workers w') = map task ws" by blast
  have "map task (workers (terminate w')) = map task (workers w')"
    by (simp add: terminate_stopped comp_def)
  moreover have "list_all (\<lambda>h. \<not> running h \<and> \<not> onMessage h \<and> \<not> onError h \<and> \<not> onExit h)
                   (workers (terminate w'))"
    by (simp add: terminate_stopped list_all_iff)
  ultimately show ?thesis using w' sp by simp
qed

lemma upt5: "[0..<5] = [0, 1, 2, 3, 4 :: nat]"
  by code_simp

lemmas run_defs = heavyComputation_def heavyComputation_with_def spawn_def task_for_def
  deliver_def promise_any_def on_message_def on_error_def on_exit_def terminate_def
  worker_terminate_def removeAllListeners_def

lemma success_run_result: "map_option fst (heavyComputation
         (\<lambda>t. Inr [MessageEv (Resp \<lparr>isSuccess = True,
                                    data = Some \<lparr>salt = 7, address = ''0xd3ad''\<rparr>,
                                    error = None\<rparr>)]) [0])
     = Some (Some (Resp \<lparr>isSuccess = True, data = Some \<lparr>salt = 7, address = ''0xd3ad''\<rparr>,
                         error = None\<rparr>))"
  by (simp add: run_defs upt5)

lemma success_run_response: "map_option fst (getHeavy (\<lambda>t. Inr [MessageEv (Resp \<lparr>isSuccess = True,
                                    data = Some \<lparr>salt = 7, address = ''0xd3ad''\<rparr>,
                                    error = None\<rparr>)]) [0])
   = Some \<lparr>body_data = ''ok''\<rparr>"
  by (simp add: getHeavy_def run_defs upt5)

section \<open>The claims\<close>

subsection \<open>C1: one outcome per task\<close>

text \<open>
  Claim C1: for every task and probe the worker emits exactly one outcome, the match on the
  first candidate of its stride that the probe accepts, and examines nothing after it.

  The script has no \<^verbatim>\<open>break\<close> or \<^verbatim>\<open>return\<close> after the \<^verbatim>\<open>postMessage\<close> of a
  match, and its last statement posts \<^verbatim>\<open>new Error('Not Found')\<close> whatever the loop found.
  For the task with stride 3, offset 1 and bound 10 and a probe that accepts 4 only, the
  worker goes on to examine 7 and posts two messages.
\<close>

theorem worker_posts_after_match:
  "salt_worker (\<lambda>i. i = 4) \<lparr>workerNumber = 3, offset = 1, max' = 10\<rparr>
     = Some \<lparr>examined = [1, 4, 7], posted = [SaltObj 4, ErrorObj ''Not Found'']\<rparr>"
  by (simp add: salt_worker_stride stride.simps)

subsection \<open>C2: a match makes the run succeed\<close>

text \<open>
  Claim C2: with at least one worker, if some candidate below the bound satisfies the probe,
  the run resolves as succeeded with a value satisfying the probe.

  The worker posts \<^verbatim>\<open>{ salt: i }\<close>, an object without \<^verbatim>\<open>isSuccess\<close>, which the listener
  of \<^verbatim>\<open>spawn\<close> rejects; the promise of every worker is rejected and
  \<^verbatim>\<open>heavyComputation\<close> returns \<^verbatim>\<open>undefined\<close>. Here: three workers, bound 10, and 7
  the only match (lemma \<open>salt_run_never_succeeds\<close> is the same for every probe, bound and
  delivery order).
\<close>

theorem match_resolves_undefined:
  "(\<lambda>v. v = 7) (7::nat) \<and> (7::nat) < 10 \<and>
   map_option fst (heavyComputation_with (salt_thread (\<lambda>v. v = 7)) 3 10 [0, 1, 2]) = Some None"
  by code_simp

subsection \<open>C3: no match\<close>

text \<open>
  Claim C3, as amended: with at least one worker and no candidate below the bound satisfying
  the probe, once the first message of every worker has been delivered the run returns
  normally with \<^verbatim>\<open>undefined\<close>; the promise of every worker was rejected with the posted
  \<^verbatim>\<open>Error('Not Found')\<close>, and the \<^verbatim>\<open>AggregateError\<close> holding these \<open>workerNum\<close> reasons
  is caught and logged, not returned.
\<close>

theorem no_match_resolves_undefined:
  assumes "1 \<le> workerNum"
      and "\<forall>v<upperBound. \<not> probe v"
      and "{0..<workerNum} \<subseteq> set sched"
  shows "\<exists>w. heavyComputation_with (salt_thread probe) workerNum upperBound sched = Some (None, w)
           \<and> console w = [PromiseError (AggregateError
                             (replicate workerNum (RejMessage (ErrorObj ''Not Found''))))]"
proof -
  from salt_run [OF assms(1,3), of "\<lambda>r. r = RejMessage (ErrorObj ''Not Found'')" upperBound probe]
    assms(2)
  obtain errs w where
    r: "heavyComputation_with (salt_thread probe) workerNum upperBound sched = Some (None, w)"
       "length errs = workerNum" "\<forall>r\<in>set errs. r = RejMessage (ErrorObj ''Not Found'')"
       "console w = [PromiseError (AggregateError errs)]" by auto
  from r(2,3) have "errs = replicate workerNum (RejMessage (ErrorObj ''Not Found''))"
    by (intro replicate_eqI) auto
  with r(1,4) show ?thesis by simp
qed

theorem no_match_resolves_undefined_witness:
  "(1::nat) \<le> 2 \<and> {0..<2} \<subseteq> set [1, 0 :: nat] \<and>
   (\<exists>w. heavyComputation_with (salt_thread (\<lambda>v. False)) 2 4 [1, 0] = Some (None, w)
           \<and> console w = [PromiseError (AggregateError
                             (replicate 2 (RejMessage (ErrorObj ''Not Found''))))])"
proof -
  have s: "{0..<2} \<subseteq> set [1, 0 :: nat]" by auto
  from no_match_resolves_undefined [of 2 4 "\<lambda>v. False" "[1, 0]"] s show ?thesis by simp
qed

text \<open>
  Claim C3 as stated has the run resolve with a failure count equal to the number of
  workers. The value returned is \<^verbatim>\<open>undefined\<close> for two workers and for three alike: it
  carries no count.
\<close>

theorem no_failure_count_counterexample:
  "map_option fst (heavyComputation_with (salt_thread (\<lambda>v. False)) 2 4 [0, 1]) = Some None
   \<and> map_option fst (heavyComputation_with (salt_thread (\<lambda>v. False)) 3 4 [0, 1, 2]) = Some None"
  by code_simp

subsection \<open>C4: every worker is stopped when the run returns\<close>

text \<open>
  Claim C4: on every path on which the run returns (a worker succeeded, all failed, or
  \<^verbatim>\<open>spawn\<close> threw) every worker that was spawned has been terminated before the return:
  the workers of the world left behind are exactly those the loop spawned, none of them is
  running and none has a listener left.
\<close>

theorem every_exit_stops_workers:
  assumes "heavyComputation_with th workerNum mx sched = Some (r, w)"
  shows "map task (workers w) = map task (fst (spawn_loop th workerNum mx [0..<workerNum] []))
         \<and> list_all (\<lambda>h. \<not> running h \<and> \<not> onMessage h \<and> \<not> onError h \<and> \<not> onExit h) (workers w)"
  using assms by (rule run_stops_workers)

text \<open>The three paths, with two workers: a success after a crash, all failed, a spawn that throws.\<close>

theorem every_exit_stops_workers_witness:
  "(\<exists>v w. heavyComputation_with
             (\<lambda>t. if offset t = 0 then Inr [ErrorEv ''out of memory'', ExitEv 1]
                  else Inr [MessageEv (Resp \<lparr>isSuccess = True, data = None, error = None\<rparr>)])
             2 4 [0, 1] = Some (Some v, w)
          \<and> map task (workers w) = [task_for 2 4 0, task_for 2 4 1]
          \<and> list_all (\<lambda>h. \<not> running h \<and> \<not> onMessage h \<and> \<not> onError h \<and> \<not> onExit h) (workers w))
   \<and> (\<exists>w. heavyComputation_with (salt_thread (\<lambda>v. v = 3)) 2 4 [1, 0] = Some (None, w)
          \<and> map task (workers w) = [task_for 2 4 0, task_for 2 4 1]
          \<and> list_all (\<lambda>h. \<not> running h \<and> \<not> onMessage h \<and> \<not> onError h \<and> \<not> onExit h) (workers w))
   \<and> (\<exists>w. heavyComputation_with
             (\<lambda>t. if offset t = 1 then Inl ''cannot start'' else Inr []) 2 4 [] = Some (None, w)
          \<and> map task (workers w) = [task_for 2 4 0]
          \<and> list_all (\<lambda>h. \<not> running h \<and> \<not> onMessage h \<and> \<not> onError h \<and> \<not> onExit h) (workers w))"
proof (intro conjI)
  let ?th1 = "\<lambda>t. if offset t = 0 then Inr [ErrorEv ''out of memory'', ExitEv 1]
           else Inr [MessageEv (Resp \<lparr>isSuccess = True, data = None, error = None\<rparr>)]"
  let ?th3 = "\<lambda>t. if offset t = 1 then Inl ''cannot start'' else Inr []"
  let ?W1 = "\<lparr>workers =
               [\<lparr>task = \<lparr>workerNumber = 2, offset = 0, max' = 4\<rparr>, outbox = [],
                 onMessage = False, onError = False, onExit = False, running = False,
                 promise = Rejected (RejError ''out of memory'')\<rparr>,
                \<lparr>task = \<lparr>workerNumber = 2, offset = 1, max' = 4\<rparr>, outbox = [],
                 onMessage = False, onError = False, onExit = False, running = False,
                 promise = Fulfilled (Resp \<lparr>isSuccess = True, data = None, error = None\<rparr>)\<rparr>],
             console = []\<rparr>"
  let ?W2 = "\<lparr>workers =
               [\<lparr>task = \<lparr>workerNumber = 2, offset = 0, max' = 4\<rparr>, outbox = [],
                 onMessage = False, onError = False, onExit = False, running = False,
                 promise = Rejected (RejMessage (ErrorObj ''Not Found''))\<rparr>,
                \<lparr>task = \<lparr>workerNumber = 2, offset = 1, max' = 4\<rparr>, outbox = [],
                 onMessage = False, onError = False, onExit = False, running = False,
                 promise = Rejected (RejMessage (SaltObj 3))\<rparr>],
             console = [PromiseError (AggregateError
                          [RejMessage (ErrorObj ''Not Found''), RejMessage (SaltObj 3)])]\<rparr>"
  let ?W3 = "\<lparr>workers =
               [\<lparr>task = \<lparr>workerNumber = 2, offset = 0, max' = 4\<rparr>, outbox = [],
                 onMessage = False, onError = False, onExit = False, running = False,
                 promise = Pending\<rparr>],
             console = [PromiseError (Thrown ''cannot start'')]\<rparr>"
  have h1: "heavyComputation_with ?th1 2 4 [0, 1]
              = Some (Some (Resp \<lparr>isSuccess = True, data = None, error = None\<rparr>), ?W1)"
    by code_simp
  have h2: "heavyComputation_with (salt_thread (\<lambda>v. v = 3)) 2 4 [1, 0] = Some (None, ?W2)"
    by code_simp
  have h3: "heavyComputation_with ?th3 2 4 [] = Some (None, ?W3)"
    by code_simp
  have s1: "map task (fst (spawn_loop ?th1 2 4 [0..<2] [])) = [task_for 2 4 0, task_for 2 4 1]"
    by code_simp
  have s2: "map task (fst (spawn_loop (salt_thread (\<lambda>v. v = 3)) 2 4 [0..<2] []))
              = [task_for 2 4 0, task_for 2 4 1]"
    by code_simp
  have s3: "map task (fst (spawn_loop ?th3 2 4 [0..<2] [])) = [task_for 2 4 0]"
    by code_simp
  show "\<exists>v w. heavyComputation_with ?th1 2 4 [0, 1] = Some (Some v, w)
          \<and> map task (workers w) = [task_for 2 4 0, task_for 2 4 1]
          \<and> list_all (\<lambda>h. \<not> running h \<and> \<not> onMessage h \<and> \<not> onError h \<and> \<not> onExit h) (workers w)"
  proof (intro exI conjI)
    show "heavyComputation_with ?th1 2 4 [0, 1] = Some (Some (Resp \<lparr>isSuccess = True, data = None, error = None\<rparr>), ?W1)" by (rule h1)
    show "map task (workers ?W1) = [task_for 2 4 0, task_for 2 4 1]"
      by (rule trans [OF every_exit_stops_workers [OF h1, THEN conjunct1] s1])
    show "list_all (\<lambda>h. \<not> running h \<and> \<not> onMessage h \<and> \<not> onError h \<and> \<not> onExit h) (workers ?W1)"
      by (rule every_exit_stops_workers [OF h1, THEN conjunct2])
  qed
  show "\<exists>w. heavyComputation_with (salt_thread (\<lambda>v. v = 3)) 2 4 [1, 0] = Some (None, w)
          \<and> map task (workers w) = [task_for 2 4 0, task_for 2 4 1]
          \<and> list_all (\<lambda>h. \<not> running h \<and> \<not> onMessage h \<and> \<not> onError h \<and> \<not> onExit h) (workers w)"
  proof (intro exI conjI)
    show "heavyComputation_with (salt_thread (\<lambda>v. v = 3)) 2 4 [1, 0] = Some (None, ?W2)" by (rule h2)
    show "map task (workers ?W2) = [task_for 2 4 0, task_for 2 4 1]"
      by (rule trans [OF every_exit_stops_workers [OF h2, THEN conjunct1] s2])
    show "list_all (\<lambda>h. \<not> running h \<and> \<not> onMessage h \<and> \<not> onError h \<and> \<not> onExit h) (workers ?W2)"
      by (rule every_exit_stops_workers [OF h2, THEN conjunct2])
  qed
  show "\<exists>w. heavyComputation_with ?th3 2 4 [] = Some (None, w)
          \<and> map task (workers w) = [task_for 2 4 0]
          \<and> list_all (\<lambda>h. \<not> running h \<and> \<not> onMessage h \<and> \<not> onError h \<and> \<not> onExit h) (workers w)"
  proof (intro exI conjI)
    show "heavyComputation_with ?th3 2 4 [] = Some (None, ?W3)" by (rule h3)
    show "map task (workers ?W3) = [task_for 2 4 0]"
      by (rule trans [OF every_exit_stops_workers [OF h3, THEN conjunct1] s3])
    show "list_all (\<lambda>h. \<not> running h \<and> \<not> onMessage h \<and> \<not> onError h \<and> \<not> onExit h) (workers ?W3)"
      by (rule every_exit_stops_workers [OF h3, THEN conjunct2])
  qed
qed

subsection \<open>C5: the partitions are disjoint and cover the range\<close>

text \<open>
  Claim C5: for at least one worker and any bound, the candidates examined by the workers
  \<open>0, \<dots>, workerNum - 1\<close> on the tasks that \<^verbatim>\<open>heavyComputation\<close> builds are pairwise
  disjoint (no candidate appears twice in their concatenation) and together are exactly the
  numbers below the bound.
\<close>

theorem partitions_disjoint_cover:
  assumes "1 \<le> workerNum"
  shows "\<exists>parts.
           map (\<lambda>i. map_option examined (salt_worker probe (task_for workerNum upperBound i)))
               [0..<workerNum] = map Some parts
         \<and> distinct (concat parts)
         \<and> set (concat parts) = {0..<upperBound}"
proof (intro exI conjI)
  show "map (\<lambda>i. map_option examined (salt_worker probe (task_for workerNum upperBound i)))
            [0..<workerNum] = map Some (map (stride workerNum upperBound) [0..<workerNum])"
    using assms by (simp add: salt_worker_stride task_for_def)
  show "distinct (concat (map (stride workerNum upperBound) [0..<workerNum]))"
    by (rule parts_distinct) simp
  show "set (concat (map (stride workerNum upperBound) [0..<workerNum])) = {0..<upperBound}"
    using assms by (intro parts_cover) simp
qed

theorem partitions_disjoint_cover_witness:
  "(1::nat) \<le> 3 \<and> (\<exists>parts.
           map (\<lambda>i. map_option examined (salt_worker (\<lambda>i. i = 7) (task_for 3 10 i)))
               [0..<3] = map Some parts
         \<and> distinct (concat parts)
         \<and> set (concat parts) = {0..<10})"
  using partitions_disjoint_cover [of 3 "\<lambda>i. i = 7" 10] by simp

subsection \<open>C6: a crash does not settle the race\<close>



subsection \<open>C7: an exhausted partition\<close>

text \<open>
  Claim C7, as amended: a worker with a positive stride whose partition holds no match
  (the empty partition included) posts exactly one message, the object
  \<^verbatim>\<open>new Error('Not Found')\<close>, and its handler returns; nothing is thrown.
\<close>

theorem exhausted_posts_error:
  assumes "1 \<le> workerNumber d"
      and "\<forall>k. offset d + k * workerNumber d < max' d \<longrightarrow> \<not> probe (offset d + k * workerNumber d)"
  shows "\<exists>s. salt_worker probe d = Some s \<and> posted s = [ErrorObj ''Not Found'']"
proof -
  have "filter probe (stride (workerNumber d) (max' d) (offset d)) = []"
  proof -
    { fix c assume c: "c \<in> set (stride (workerNumber d) (max' d) (offset d))"
      with assms(1) have "offset d \<le> c" "c < max' d" "workerNumber d dvd (c - offset d)"
        by (simp_all add: set_stride)
      then obtain k where "c = offset d + k * workerNumber d"
        by (metis dvd_def le_add_diff_inverse mult.commute)
      with \<open>c < max' d\<close> assms(2) have "\<not> probe c" by blast }
    then show ?thesis by (simp add: filter_empty_conv)
  qed
  with assms(1) show ?thesis by (simp add: salt_worker_stride)
qed

theorem exhausted_posts_error_witness:
  "(\<exists>s. salt_worker (\<lambda>i. False) \<lparr>workerNumber = 2, offset = 3, max' = 2\<rparr> = Some s \<and> posted s = [ErrorObj ''Not Found''])"
  using exhausted_posts_error [of "\<lparr>workerNumber = 2, offset = 3, max' = 2\<rparr>" "\<lambda>i. False"] by simp

text \<open>
  Claim C7 as stated has the worker emit \<^verbatim>\<open>NotFound{reason: "exhausted partition"}\<close>. With
  two workers, bound 4 and no match, worker 0 posts an \<^verbatim>\<open>Error\<close> object with the message
  \<^verbatim>\<open>Not Found\<close>, which is not that response.
\<close>

theorem exhausted_message_counterexample:
  "map_option posted (salt_worker (\<lambda>i. False) \<lparr>workerNumber = 2, offset = 0, max' = 4\<rparr>)
     = Some [ErrorObj ''Not Found'']
   \<and> ErrorObj ''Not Found'' \<noteq> spec_NotFound ''exhausted partition''"
  by (simp add: salt_worker_stride stride.simps spec_NotFound_def)

subsection \<open>C8: the entry point\<close>

text \<open>
  Claim C8, as amended: the entry point takes no configuration. Whenever \<^verbatim>\<open>getHeavy\<close>
  answers, every worker was given \<^verbatim>\<open>workerNumber\<close> 5 and \<^verbatim>\<open>max\<close> 500000 with an
  offset below 5, the body of the response is \<^verbatim>\<open>{ data: 'ok' }\<close>, and the result of
  \<^verbatim>\<open>heavyComputation\<close> is only logged.
\<close>

theorem entry_point_fixed:
  assumes "getHeavy th sched = Some (resp, w)"
  shows "resp = \<lparr>body_data = ''ok''\<rparr>
       \<and> list_all (\<lambda>h. workerNumber (task h) = 5 \<and> max' (task h) = 500000 \<and> offset (task h) < 5)
           (workers w)
       \<and> (\<exists>result. map_option fst (heavyComputation th sched) = Some result
                     \<and> last (console w) = Result result)"
proof -
  from assms obtain result w1 where
    h: "heavyComputation_with th 5 500000 sched = Some (result, w1)"
    and r: "resp = \<lparr>body_data = ''ok''\<rparr>" "w = w1\<lparr>console := console w1 @ [Result result]\<rparr>"
    by (auto simp: getHeavy_def heavyComputation_def split: option.splits)
  from run_stops_workers [OF h]
  have t: "map task (workers w1) = map task (fst (spawn_loop th 5 500000 [0..<5] []))" by simp
  obtain ws e where sp: "spawn_loop th 5 500000 [0..<5] [] = (ws, e)"
    by (cases "spawn_loop th 5 500000 [0..<5] []") auto
  from spawn_loop_tasks [OF sp] obtain ks where
    ks: "map task ws = map (task_for 5 500000) ks" "set ks \<subseteq> {0..<5}" by auto
  have "\<forall>h\<in>set (workers w1). task h \<in> set (map task (workers w1))" by simp
  with t sp ks(1) have "\<forall>h\<in>set (workers w1). \<exists>i\<in>set ks. task h = task_for 5 500000 i"
    by auto
  moreover from ks(2) have "\<forall>i\<in>set ks. i < 5" by auto
  ultimately have "\<forall>h\<in>set (workers w1). \<exists>i<5. task h = task_for 5 500000 i"
    by blast
  then have "list_all (\<lambda>h. workerNumber (task h) = 5 \<and> max' (task h) = 500000 \<and> offset (task h) < 5)
           (workers w1)"
    by (auto simp: list_all_iff task_for_def)
  with r h show ?thesis by (simp add: heavyComputation_def)
qed

theorem entry_point_fixed_witness:
  "\<exists>resp w. getHeavy (salt_thread (\<lambda>v. False)) [0, 1, 2, 3, 4] = Some (resp, w)
     \<and> resp = \<lparr>body_data = ''ok''\<rparr>
     \<and> length (workers w) = 5
     \<and> list_all (\<lambda>h. workerNumber (task h) = 5 \<and> max' (task h) = 500000 \<and> offset (task h) < 5)
           (workers w)"
proof -
  have "{0..<5} \<subseteq> set [0, 1, 2, 3, 4 :: nat]" by auto
  from salt_run [of 5 "[0, 1, 2, 3, 4]" "\<lambda>r. True" 500000 "\<lambda>v. False", OF _ this]
  obtain w1 where h: "heavyComputation (salt_thread (\<lambda>v. False)) [0, 1, 2, 3, 4] = Some (None, w1)"
    by (auto simp: heavyComputation_def)
  then have g: "getHeavy (salt_thread (\<lambda>v. False)) [0, 1, 2, 3, 4]
                  = Some (\<lparr>body_data = ''ok''\<rparr>, w1\<lparr>console := console w1 @ [Result None]\<rparr>)"
    by (simp add: getHeavy_def)
  have "map task (workers w1) = map task (fst (spawn_loop (salt_thread (\<lambda>v. False)) 5 500000 [0..<5] []))"
    using h run_stops_workers [of "salt_thread (\<lambda>v. False)" 5 500000 "[0, 1, 2, 3, 4]" None w1]
    by (simp add: heavyComputation_def)
  then have "length (map task (workers w1)) = 5"
    by (simp add: spawn_loop_salt)
  then have len: "length (workers (w1\<lparr>console := console w1 @ [Result None]\<rparr>)) = 5" by simp
  from entry_point_fixed [OF g] g len show ?thesis by blast
qed

text \<open>
  Claim C8 as stated has the entry point return \<^verbatim>\<open>{found, value?, derived?}\<close>. A run in
  which a worker reports a success and a run in which every worker fails get the same
  response.
\<close>

theorem entry_point_counterexample:
  "map_option fst (heavyComputation
         (\<lambda>t. Inr [MessageEv (Resp \<lparr>isSuccess = True,
                                    data = Some \<lparr>salt = 7, address = ''0xd3ad''\<rparr>,
                                    error = None\<rparr>)]) [0])
     = Some (Some (Resp \<lparr>isSuccess = True, data = Some \<lparr>salt = 7, address = ''0xd3ad''\<rparr>,
                         error = None\<rparr>))
   \<and> map_option fst (getHeavy
         (\<lambda>t. Inr [MessageEv (Resp \<lparr>isSuccess = True,
                                    data = Some \<lparr>salt = 7, address = ''0xd3ad''\<rparr>,
                                    error = None\<rparr>)]) [0])
     = Some \<lparr>body_data = ''ok''\<rparr>
   \<and> map_option fst (heavyComputation (salt_thread (\<lambda>v. False)) [0, 1, 2, 3, 4]) = Some None
   \<and> map_option fst (getHeavy (salt_thread (\<lambda>v. False)) [0, 1, 2, 3, 4])
     = Some \<lparr>body_data = ''ok''\<rparr>"
proof -
  have s: "{0..<5} \<subseteq> set [0, 1, 2, 3, 4 :: nat]" by auto
  have a: "map_option fst (heavyComputation (salt_thread (\<lambda>v. False)) [0, 1, 2, 3, 4]) = Some None"
    using salt_run_never_succeeds [of 5 "[0, 1, 2, 3, 4]" "\<lambda>v. False" 500000, OF _ s]
    by (simp add: heavyComputation_def)
  then have b: "map_option fst (getHeavy (salt_thread (\<lambda>v. False)) [0, 1, 2, 3, 4])
                  = Some \<lparr>body_data = ''ok''\<rparr>"
    by (auto simp: getHeavy_def)
  from success_run_result success_run_response a b show ?thesis by (simp only: simp_thms)
qed

subsection \<open>C9: the first message is classified by isSuccess\<close>

text \<open>
  Claim C9: for a worker returned by \<^verbatim>\<open>spawn\<close>, the first message fulfils the promise
  when its \<^verbatim>\<open>isSuccess\<close> is true and rejects it with the message otherwise, in particular
  for the \<^verbatim>\<open>{ salt: i }\<close> that the worker script posts; a later message changes nothing.
\<close>

theorem first_message_classified_by_isSuccess:
  assumes "spawn th t = Inr h"
  shows "promise (fst (emit (MessageEv msg) h))
           = (if isSuccess_of msg = Some True then Fulfilled msg else Rejected (RejMessage msg))
         \<and> promise (fst (emit (MessageEv (SaltObj i)) h)) = Rejected (RejMessage (SaltObj i))
         \<and> emit (MessageEv msg') (fst (emit (MessageEv msg) h)) = (fst (emit (MessageEv msg) h), [])"
proof -
  from assms obtain evs where "h = started t evs" by (auto simp: spawn_started)
  then show ?thesis by (simp add: on_message_def truthy_iff)
qed

theorem first_message_classified_by_isSuccess_witness:
  "spawn (salt_thread (\<lambda>v. v = 7)) (task_for 3 10 1)
     = Inr \<lparr>task = \<lparr>workerNumber = 3, offset = 1, max' = 10\<rparr>,
            outbox = [MessageEv (SaltObj 7), MessageEv (ErrorObj ''Not Found'')],
            onMessage = True, onError = True, onExit = True, running = True,
            promise = Pending\<rparr>
   \<and> promise (fst (emit (MessageEv (SaltObj 7))
        \<lparr>task = \<lparr>workerNumber = 3, offset = 1, max' = 10\<rparr>,
         outbox = [MessageEv (SaltObj 7), MessageEv (ErrorObj ''Not Found'')],
         onMessage = True, onError = True, onExit = True, running = True,
         promise = Pending\<rparr>)) = Rejected (RejMessage (SaltObj 7))"
proof -
  have h: "spawn (salt_thread (\<lambda>v. v = 7)) (task_for 3 10 1)
     = Inr \<lparr>task = \<lparr>workerNumber = 3, offset = 1, max' = 10\<rparr>,
            outbox = [MessageEv (SaltObj 7), MessageEv (ErrorObj ''Not Found'')],
            onMessage = True, onError = True, onExit = True, running = True,
            promise = Pending\<rparr>"
    by code_simp
  from first_message_classified_by_isSuccess [OF h, of "SaltObj 7" 7] h show ?thesis
    by (simp only:) simp
qed

subsection \<open>C10: listeners are removed before the forced exit\<close>

text \<open>
  Claim C10: \<^verbatim>\<open>terminate\<close> calls \<^verbatim>\<open>worker.terminate()\<close> on each worker after
  \<^verbatim>\<open>removeAllListeners()\<close>, so the \<^verbatim>\<open>'exit'\<close> with code 1 of a thread that was still
  running reaches no listener: nothing is logged, and no promise changes. (Lemma
  \<open>exit_listener_would_reject\<close> is the same exit with the listener still attached.)
\<close>

theorem cleanup_detaches_before_exit:
  "terminate_each ws = (map (\<lambda>h. fst (worker_terminate (removeAllListeners h))) ws, [])
   \<and> map promise (workers (terminate w)) = map promise (workers w)
   \<and> console (terminate w) = console w
   \<and> snd (worker_terminate (removeAllListeners h)) = []
   \<and> promise (fst (worker_terminate (removeAllListeners h))) = promise h"
  by (simp add: terminate_stopped terminate_each_stopped worker_terminate_removed comp_def)

end
